theory Spec2Isabelle
  imports Main "HOL-Library.Word" "HOL-Library.Signed_Division"
begin

section \<open>The parallel write benchmark: \<^verbatim>\<open>examples/8a_benchmark_write1D2D_parallel.cpp\<close>\<close>

text \<open>
  The class \<^verbatim>\<open>TestInput\<close> holds the parameters of the benchmark and the partition of the
  work of one MPI rank. Its integer fields keep their C++ widths: \<^verbatim>\<open>int\<close> and
  \<^verbatim>\<open>unsigned int\<close> are 32-bit words (an \<^verbatim>\<open>int\<close> is read with \<open>sint\<close>),
  \<^verbatim>\<open>unsigned long\<close> is a 64-bit word. Arithmetic on words wraps around, as unsigned
  arithmetic does in C++.
\<close>

type_synonym c_int = "32 word"
type_synonym c_uint = "32 word"
type_synonym c_ulong = "64 word"

record TestInput =
  m_MPISize :: c_int
  m_MPIRank :: c_int
  m_Bulk :: c_ulong
  m_Seg :: c_uint
  m_Steps :: c_int
  m_Backend :: string
  m_Unbalance :: bool
  m_Ratio :: c_int
  m_GlobalMesh :: "c_ulong list"
  m_InRankDistribution :: "(c_ulong \<times> c_ulong) list"

text \<open>The process environment: the value of each variable that is set.\<close>

type_synonym environment = "string \<Rightarrow> string option"

text \<open>
  Modelled from the spec: \<^verbatim>\<open>auxiliary::getEnvString\<close> is declared in
  \<^verbatim>\<open>openPMD/auxiliary/Environment.hpp\<close>, which is not among the sources. The spec speaks of
  "environment-driven toggles for collective vs. independent parallel mode"; the call
  \<^verbatim>\<open>getEnvString( "OPENPMD_HDF5_INDEPENDENT", "ON" )\<close> passes the variable's name and a
  default. The model returns the value of the variable when it is set and the default
  otherwise.
\<close>

definition getEnvString :: "environment \<Rightarrow> string \<Rightarrow> string \<Rightarrow> string" where
  "getEnvString env key defaultValue =
     (case env key of Some v \<Rightarrow> v | None \<Rightarrow> defaultValue)"

text \<open>
  \<^verbatim>\<open>unsigned int GetSeg() const\<close>: two nested \<^verbatim>\<open>if\<close>s, the inner one returns 1, and
  control falls through to \<^verbatim>\<open>return m_Seg\<close> otherwise.
\<close>

definition GetSeg :: "environment \<Rightarrow> TestInput \<Rightarrow> c_uint" where
  "GetSeg env t =
     (if m_Backend t = ''.h5''
      then (if getEnvString env ''OPENPMD_HDF5_INDEPENDENT'' ''ON'' \<noteq> ''ON''
            then 1 else m_Seg t)
      else m_Seg t)"

text \<open>
  \<^verbatim>\<open>void GetRankCountOffset(unsigned long& offset, unsigned long& count, int& step)\<close>:
  the two output parameters are returned as the pair \<open>(offset, count)\<close>. The product
  \<^verbatim>\<open>m_Bulk * m_MPIRank\<close> converts the \<^verbatim>\<open>int\<close> to \<^verbatim>\<open>unsigned long\<close> (\<open>scast\<close>);
  \<^verbatim>\<open>%\<close> on \<^verbatim>\<open>int\<close> truncates towards zero (\<open>smod\<close>).
\<close>

definition GetRankCountOffset :: "TestInput \<Rightarrow> c_int \<Rightarrow> c_ulong \<times> c_ulong" where
  "GetRankCountOffset t step =
     (let count = m_Bulk t;
          offset = m_Bulk t * scast (m_MPIRank t)
      in if \<not> m_Unbalance t then (offset, count)
         else if sint (m_MPISize t) < 2 then (offset, count)
         else if sint step smod 3 \<noteq> 1 then (offset, count)
         else
           let count1 = (if sint (m_MPIRank t) smod 10 = 0 then 0 else count)
           in if sint (m_MPIRank t) smod 10 = 1
              then (offset - m_Bulk t, count1 + m_Bulk t)
              else (offset, count1))"

lemma unat_inc: "(i::c_ulong) < n \<Longrightarrow> unat (i + 1) = Suc (unat i)"
proof -
  assume "i < n"
  then have "unat i < unat n" by (simp add: word_less_nat_alt)
  moreover have "unat n < 2 ^ 64" using unsigned_less [of n] by simp
  ultimately have "unat i + unat (1::c_ulong) < 2 ^ LENGTH(64)" by simp
  then have "unat (i + 1) = unat i + unat (1::c_ulong)"
    by (simp only: unat_add_lem [THEN iffD1])
  then show ?thesis by simp
qed

text \<open>
  The \<^verbatim>\<open>for\<close> loop of \<^verbatim>\<open>setBlockDistributionInRank\<close>, with the loop variable \<open>i\<close>,
  the running \<open>counter\<close> and the list built so far (\<^verbatim>\<open>push_back\<close> appends).
  \<^verbatim>\<open>nBlocks\<close> is an \<^verbatim>\<open>unsigned int\<close>: \<^verbatim>\<open>nBlocks - 1\<close> is computed in 32 bits and then
  widened, as the other 32-bit operands are.
\<close>

function blockLoop ::
  "c_ulong \<Rightarrow> c_ulong \<Rightarrow> c_uint \<Rightarrow> c_ulong \<Rightarrow> c_ulong \<Rightarrow> (c_ulong \<times> c_ulong) list
     \<Rightarrow> (c_ulong \<times> c_ulong) list" where
  "blockLoop rankOffset rankCount nBlocks i counter dist =
     (if i < ucast nBlocks
      then
        let blockSize0 = rankCount div ucast nBlocks;
            blockSize =
              (if rankCount mod ucast nBlocks \<noteq> 0 \<and> i = ucast (nBlocks - 1)
               then rankCount - blockSize0 * ucast (nBlocks - 1)
               else blockSize0)
        in blockLoop rankOffset rankCount nBlocks (i + 1) (counter + blockSize)
             (dist @ [(rankOffset + counter, blockSize)])
      else dist)"
  by pat_completeness auto
termination
  apply (relation "measure (\<lambda>(ro, rc, nb, i, c, d). unat (ucast nb :: c_ulong) - unat i)")
   apply simp
  apply (simp add: unat_inc word_less_nat_alt)
  done

text \<open>
  Integer division by zero is undefined behaviour in C++ (a trap on most machines):
  the model returns it as a fault instead of HOL's \<open>x div 0 = 0\<close>.
\<close>

datatype fault = DivisionByZero

text \<open>
  \<^verbatim>\<open>void setBlockDistributionInRank(int step)\<close>. The early \<^verbatim>\<open>return\<close> for
  \<^verbatim>\<open>0 == rankCount\<close> leaves the object as it is. The call of \<^verbatim>\<open>srand\<close> seeds the C
  random number generator, which no field of \<^verbatim>\<open>TestInput\<close> reads, and is left out.
  The first use of \<^verbatim>\<open>nBlocks\<close> is the division \<^verbatim>\<open>rankCount / nBlocks\<close>.
\<close>

definition setBlockDistributionInRank :: "environment \<Rightarrow> TestInput \<Rightarrow> c_int \<Rightarrow> fault + TestInput" where
  "setBlockDistributionInRank env t step =
     (case GetRankCountOffset t step of
        (rankOffset, rankCount) \<Rightarrow>
          if 0 = rankCount then Inr t
          else
            let nBlocks0 = GetSeg env t
            in if nBlocks0 = 0 then Inl DivisionByZero
               else
                 let nBlocks = (if rankCount div ucast nBlocks0 \<le> 1 then 1 else nBlocks0)
                 in Inr (t\<lparr>m_InRankDistribution :=
                           blockLoop rankOffset rankCount nBlocks 0 0 []\<rparr>))"

text \<open>
  What it means for a list of \<open>(offset, count)\<close> blocks to tile a range: the first
  block starts at \<open>start\<close> and every block starts where the one before it ends.
\<close>

fun contiguousFrom :: "c_ulong \<Rightarrow> (c_ulong \<times> c_ulong) list \<Rightarrow> bool" where
  "contiguousFrom start [] = True"
| "contiguousFrom start ((off, cnt) # bs) = (off = start \<and> contiguousFrom (start + cnt) bs)"

definition blockSizes :: "(c_ulong \<times> c_ulong) list \<Rightarrow> nat list" where
  "blockSizes bs = map (\<lambda>b. unat (snd b)) bs"

text \<open>The objects the benchmark starts from: the defaults of the member initialisers.\<close>

definition defaultInput :: TestInput where
  "defaultInput =
     \<lparr>m_MPISize = 1, m_MPIRank = 0, m_Bulk = 1000, m_Seg = 1, m_Steps = 1,
      m_Backend = ''.bp'', m_Unbalance = False, m_Ratio = 1, m_GlobalMesh = [],
      m_InRankDistribution = []\<rparr>"

definition noEnvironment :: environment where
  "noEnvironment = (\<lambda>_. None)"

declare blockLoop.simps [simp del]

subsection \<open>The number of segments\<close>

text \<open>
  Claim C9. \<^verbatim>\<open>GetSeg\<close> returns 1 exactly when the backend is \<^verbatim>\<open>".h5"\<close> and the variable
  \<^verbatim>\<open>OPENPMD_HDF5_INDEPENDENT\<close> is set to a value other than \<^verbatim>\<open>"ON"\<close>; in every
  other case (another backend, the variable unset, the variable set to \<^verbatim>\<open>"ON"\<close>) it
  returns \<^verbatim>\<open>m_Seg\<close> as it is.
\<close>

theorem GetSeg_spec:
  "GetSeg env t =
     (if m_Backend t = ''.h5'' \<and> (\<exists>v. env ''OPENPMD_HDF5_INDEPENDENT'' = Some v \<and> v \<noteq> ''ON'')
      then 1 else m_Seg t)"
  by (cases "env ''OPENPMD_HDF5_INDEPENDENT''") (auto simp: GetSeg_def getEnvString_def)

subsection \<open>The blocks of a rank\<close>

text \<open>Widening a 32-bit operand keeps its value; so does \<^verbatim>\<open>nBlocks - 1\<close> for a positive \<^verbatim>\<open>nBlocks\<close>.\<close>

lemma unat_ucast_up: "unat (ucast (w::c_uint) :: c_ulong) = unat w"
proof -
  have "unat w < 2 ^ 32" using unsigned_less [of w] by simp
  then have "unat w < 2 ^ 64" by simp
  then show ?thesis by (simp add: unsigned_ucast_eq take_bit_nat_eq_self_iff)
qed

lemma unat_ucast_pred: "(w::c_uint) \<noteq> 0 \<Longrightarrow> unat (ucast (w - 1) :: c_ulong) = unat w - 1"
  by (simp add: unat_ucast_up unat_minus_one)

lemma blockLoop_last:
  assumes nb: "nb \<noteq> 0" and i: "i = ucast (nb - 1)"
  shows "blockLoop off rc nb i counter dist =
           dist @ [(off + counter,
                    if rc mod ucast nb \<noteq> 0 then rc - rc div ucast nb * ucast (nb - 1)
                    else rc div ucast nb)]"
proof -
  have n: "0 < unat nb" using nb by (simp add: unat_gt_0)
  have ui: "unat i = unat nb - 1" using nb i by (simp add: unat_ucast_pred)
  then have lt: "i < ucast nb" using n by (simp add: word_less_nat_alt unat_ucast_up)
  have "unat (i + 1) = unat nb" using unat_inc [OF lt] ui n by simp
  then have stop: "\<not> i + 1 < ucast nb" by (simp add: word_less_nat_alt unat_ucast_up)
  show ?thesis
    apply (subst blockLoop.simps)
    apply (simp only: lt if_True Let_def)
    apply (subst blockLoop.simps)
    apply (simp only: stop if_False)
    apply (simp add: i)
    done
qed

lemma blockLoop_step:
  assumes lt: "i < ucast nb" and ne: "i \<noteq> ucast (nb - 1)"
  shows "blockLoop off rc nb i counter dist =
           blockLoop off rc nb (i + 1) (counter + rc div ucast nb)
             (dist @ [(off + counter, rc div ucast nb)])"
  apply (subst blockLoop.simps)
  apply (simp add: lt ne Let_def)
  done

lemma blockLoop_inv:
  assumes nb: "nb \<noteq> 0" and q: "rc div ucast nb \<noteq> 0"
  shows "unat i + k = unat nb - 1 \<Longrightarrow> unat counter = unat i * unat (rc div ucast nb) \<Longrightarrow>
     \<exists>ext. blockLoop off rc nb i counter dist = dist @ ext \<and> ext \<noteq> [] \<and>
       contiguousFrom (off + counter) ext \<and> (\<forall>b\<in>set ext. snd b \<noteq> 0) \<and>
       sum_list (blockSizes ext) = unat rc - unat counter"
proof (induction k arbitrary: i counter dist)
  case 0
  define n where "n = unat nb"
  define Q where "Q = unat rc div n"
  have n: "0 < n" using nb by (simp add: n_def unat_gt_0)
  have Qq: "unat (rc div ucast nb) = Q" by (simp add: Q_def n_def unat_div unat_ucast_up)
  have Q: "0 < Q" using q Qq by (metis unat_gt_0)
  have QR: "Q * n \<le> unat rc" by (simp add: Q_def)
  have ui: "unat i = n - 1" using 0 by (simp add: n_def)
  have i: "i = ucast (nb - 1)"
    using ui nb by (simp add: word_unat_eq_iff unat_ucast_pred n_def)
  have cnt: "unat counter = (n - 1) * Q" using 0 ui by (simp add: Qq)
  have le1: "Q * (n - 1) \<le> unat rc"
    using QR by (meson diff_le_self le_trans mult_le_mono2)
  have "unat rc < 2 ^ LENGTH(64)" using unsigned_less [of rc] by simp
  then have "unat (rc div ucast nb) * unat (ucast (nb - 1) :: c_ulong) < 2 ^ LENGTH(64)"
    using le1 nb by (simp add: Qq unat_ucast_pred n_def [symmetric])
  then have prod: "unat (rc div ucast nb * ucast (nb - 1)) = Q * (n - 1)"
    using nb by (simp add: unat_mult_lem [THEN iffD1] Qq unat_ucast_pred n_def)
  then have "rc div ucast nb * ucast (nb - 1) \<le> rc"
    using le1 by (simp add: word_le_nat_alt)
  then have sub: "unat (rc - rc div ucast nb * ucast (nb - 1)) = unat rc - Q * (n - 1)"
    by (simp add: unat_sub prod)
  define bs where "bs = (if rc mod ucast nb \<noteq> 0 then rc - rc div ucast nb * ucast (nb - 1)
                    else rc div ucast nb)"
  have modz: "rc mod ucast nb = 0 \<Longrightarrow> unat rc = Q * n"
  proof -
    assume "rc mod ucast nb = 0"
    then have "unat rc mod n = 0"
      by (metis unat_mod unat_ucast_up n_def unat_eq_zero)
    then show ?thesis using div_mult_mod_eq [of "unat rc" n] by (simp add: Q_def)
  qed
  have ubs: "unat bs = unat rc - Q * (n - 1)"
  proof (cases "rc mod ucast nb = 0")
    case True
    then have "unat rc = Q * n" by (rule modz)
    then have "unat rc - Q * (n - 1) = Q" using n
      by (simp add: diff_mult_distrib2)
    then show ?thesis using True by (simp add: bs_def Qq)
  next
    case False
    then show ?thesis by (simp add: bs_def sub)
  qed
  have "Q * (n - 1) + Q = Q * n" using n by (cases n) simp_all
  then have "Q * (n - 1) + Q \<le> unat rc" using QR by simp
  then have bspos: "0 < unat bs" using ubs Q by simp
  then have bsne: "bs \<noteq> 0" by (simp add: unat_gt_0)
  have res: "blockLoop off rc nb i counter dist = dist @ [(off + counter, bs)]"
    unfolding bs_def by (rule blockLoop_last [OF nb i])
  have "sum_list (blockSizes [(off + counter, bs)]) = unat rc - unat counter"
    using ubs cnt by (simp add: blockSizes_def mult.commute)
  then show ?case using res bsne by auto
next
  case (Suc k)
  define n where "n = unat nb"
  define Q where "Q = unat rc div n"
  have n: "0 < n" using nb by (simp add: n_def unat_gt_0)
  have Qq: "unat (rc div ucast nb) = Q" by (simp add: Q_def n_def unat_div unat_ucast_up)
  have Q: "0 < Q" using q Qq by (metis unat_gt_0)
  have QR: "Q * n \<le> unat rc" by (simp add: Q_def)
  have ui: "unat i + Suc k = n - 1" using Suc.prems by (simp add: n_def)
  then have lt: "i < ucast nb" by (simp add: word_less_nat_alt unat_ucast_up n_def [symmetric])
  have ne: "i \<noteq> ucast (nb - 1)"
  proof
    assume "i = ucast (nb - 1)"
    then have "unat i = n - 1" using nb by (simp add: unat_ucast_pred n_def)
    then show False using ui by simp
  qed
  have ui1: "unat (i + 1) = Suc (unat i)" by (rule unat_inc [OF lt])
  have cnt: "unat counter = unat i * Q" using Suc.prems by (simp add: Qq)
  have "(unat i + 1) * Q \<le> n * Q" using ui by (intro mult_le_mono1) simp
  then have bound: "unat counter + Q \<le> unat rc" using QR cnt by (simp add: mult.commute)
  have "unat rc < 2 ^ LENGTH(64)" using unsigned_less [of rc] by simp
  then have "unat counter + unat (rc div ucast nb) < 2 ^ LENGTH(64)" using bound Qq by simp
  then have cnt1: "unat (counter + rc div ucast nb) = unat counter + Q"
    by (simp add: unat_add_lem [THEN iffD1] Qq)
  have st: "blockLoop off rc nb i counter dist =
           blockLoop off rc nb (i + 1) (counter + rc div ucast nb)
             (dist @ [(off + counter, rc div ucast nb)])"
    by (rule blockLoop_step [OF lt ne])
  have p1: "unat (i + 1) + k = unat nb - 1" using ui ui1 by (simp add: n_def)
  have p2: "unat (counter + rc div ucast nb) = unat (i + 1) * unat (rc div ucast nb)"
    using cnt1 cnt ui1 by (simp add: Qq)
  from Suc.IH [OF p1 p2, of "dist @ [(off + counter, rc div ucast nb)]"]
  obtain ext where e1: "blockLoop off rc nb (i + 1) (counter + rc div ucast nb)
             (dist @ [(off + counter, rc div ucast nb)]) = (dist @ [(off + counter, rc div ucast nb)]) @ ext"
    and e2: "ext \<noteq> []" and e3: "contiguousFrom (off + (counter + rc div ucast nb)) ext"
    and e4: "\<forall>b\<in>set ext. snd b \<noteq> 0"
    and e5: "sum_list (blockSizes ext) = unat rc - unat (counter + rc div ucast nb)"
    by blast
  let ?ext = "(off + counter, rc div ucast nb) # ext"
  have "blockLoop off rc nb i counter dist = dist @ ?ext" using st e1 by simp
  moreover have "contiguousFrom (off + counter) ?ext" using e3 by (simp add: add.assoc)
  moreover have "\<forall>b\<in>set ?ext. snd b \<noteq> 0" using e4 q by simp
  moreover have "sum_list (blockSizes ?ext) = unat rc - unat counter"
    using e5 cnt1 bound by (simp add: blockSizes_def Qq)
  ultimately show ?case by blast
qed


text \<open>
  With at least one segment the call returns and the blocks tile the range of the
  rank: there is a first block, it starts at \<^verbatim>\<open>rankOffset\<close>, every block starts
  where the one before it ends, no block is empty, and the sizes add up (as natural
  numbers, so without wrap-around) to \<^verbatim>\<open>rankCount\<close>.
\<close>

lemma setBlockDistributionInRank_partition:
  assumes seg: "GetSeg env t \<noteq> 0"
    and rco: "GetRankCountOffset t step = (rankOffset, rankCount)"
    and rc: "rankCount \<noteq> 0"
  shows "\<exists>dist. setBlockDistributionInRank env t step = Inr (t\<lparr>m_InRankDistribution := dist\<rparr>) \<and>
           dist \<noteq> [] \<and> contiguousFrom rankOffset dist \<and> (\<forall>b\<in>set dist. snd b \<noteq> 0) \<and>
           sum_list (blockSizes dist) = unat rankCount"
proof -
  define nb where "nb = (if rankCount div ucast (GetSeg env t) \<le> 1 then 1 else GetSeg env t)"
  have run: "setBlockDistributionInRank env t step =
      Inr (t\<lparr>m_InRankDistribution := blockLoop rankOffset rankCount nb 0 0 []\<rparr>)"
    using seg rc rco by (auto simp: setBlockDistributionInRank_def nb_def Let_def)
  have nb: "nb \<noteq> 0" using seg by (simp add: nb_def)
  have q: "rankCount div ucast nb \<noteq> 0"
  proof (cases "rankCount div ucast (GetSeg env t) \<le> 1")
    case True
    then show ?thesis using rc by (simp add: nb_def)
  next
    case False
    then have "rankCount div ucast (GetSeg env t) \<noteq> 0" by auto
    then show ?thesis using False by (simp add: nb_def)
  qed
  have "unat (0::c_ulong) + (unat nb - 1) = unat nb - 1" by simp
  moreover have "unat (0::c_ulong) = unat (0::c_ulong) * unat (rankCount div ucast nb)" by simp
  ultimately obtain ext where
    "blockLoop rankOffset rankCount nb 0 0 [] = [] @ ext" "ext \<noteq> []"
    "contiguousFrom (rankOffset + 0) ext" "\<forall>b\<in>set ext. snd b \<noteq> 0"
    "sum_list (blockSizes ext) = unat rankCount - unat (0::c_ulong)"
    using blockLoop_inv [OF nb q, of 0 "unat nb - 1" 0 rankOffset "[]"] by blast
  then show ?thesis using run by (intro exI [of _ ext]) simp
qed

lemma setBlockDistributionInRank_three_segments:
  "setBlockDistributionInRank noEnvironment (defaultInput\<lparr>m_Seg := 3\<rparr>) 1 =
     Inr (defaultInput\<lparr>m_Seg := 3, m_InRankDistribution := [(0, 333), (333, 333), (666, 334)]\<rparr>)"
  by code_simp

text \<open>
  Claim C10. For every step with \<^verbatim>\<open>rankCount > 0\<close> the list \<^verbatim>\<open>m_InRankDistribution\<close>
  is, after \<^verbatim>\<open>setBlockDistributionInRank(step)\<close>, a contiguous partition of the rank's
  range. The code does not reach that list when \<^verbatim>\<open>GetSeg()\<close> is 0 (the benchmark's third
  argument \<^verbatim>\<open>0\<close>, with a backend other than collective HDF5): with the default object
  and \<^verbatim>\<open>m_Seg = 0\<close>, at step 1, \<^verbatim>\<open>rankCount\<close> is 1000 and the test
  \<^verbatim>\<open>(rankCount / nBlocks) <= 1\<close> divides by zero.
\<close>

theorem setBlockDistributionInRank_zero_segments:
  "GetSeg noEnvironment (defaultInput\<lparr>m_Seg := 0\<rparr>) = 0 \<and>
   GetRankCountOffset (defaultInput\<lparr>m_Seg := 0\<rparr>) 1 = (0, 1000) \<and>
   setBlockDistributionInRank noEnvironment (defaultInput\<lparr>m_Seg := 0\<rparr>) 1 = Inl DivisionByZero"
  by (simp add: setBlockDistributionInRank_def GetRankCountOffset_def GetSeg_def
      getEnvString_def noEnvironment_def defaultInput_def)

section \<open>The deferred-write engine: the order of the tasks of a flush\<close>

text \<open>
  Of the engine itself the sources hold the declarations of \<^verbatim>\<open>Iteration.hpp\<close> (among them
  \<^verbatim>\<open>CloseStatus\<close>, \<^verbatim>\<open>close\<close>, \<^verbatim>\<open>flush\<close> and \<^verbatim>\<open>dirtyRecursive\<close>) and the calls the
  benchmark makes (\<^verbatim>\<open>resetDataset\<close>, \<^verbatim>\<open>storeChunk\<close>, \<^verbatim>\<open>setAttribute\<close>,
  \<^verbatim>\<open>close\<close>). The bodies that walk the hierarchy and queue the tasks are not among them;
  the walk below follows the algorithm of the spec, section 4.2, step by step.
\<close>

text \<open>\<^verbatim>\<open>enum class CloseStatus\<close> of \<^verbatim>\<open>Iteration.hpp\<close>, with its four values in their order.\<close>

datatype CloseStatus = Open | ClosedInFrontend | ClosedInBackend | ClosedTemporarily

text \<open>
  Modelled from the spec: the container classes are not among the sources. The keys of
  "children: ordered mapping name\<rightarrow>owned child"; a Series owns "an ordered mapping from
  iteration index (non-negative integer) to Iteration", every other collection is keyed
  by name. The keys from the root down to a node identify it: a path stands for the
  "target Hierarchy Node" of a task.
\<close>

datatype key = Index nat | Name string

type_synonym path = "key list"

text \<open>
  Modelled from the spec: \<^verbatim>\<open>Dataset\<close> is declared outside the sources (the benchmark
  builds one as \<^verbatim>\<open>Dataset( datatype, m_GlobalMesh )\<close>). It is the "declared shape
  (\<^verbatim>\<open>Extent\<close>), element datatype" of a RecordComponent.
\<close>

datatype dataset = Dataset (dtype: string) (extent: "nat list")

text \<open>
  Modelled from the spec: the pending chunk operations of a RecordComponent, "pending
  chunk writes (each a buffer + offset + extent) or pending chunk reads (each a target
  buffer + offset + extent)". The buffer is memory of the caller, which the walk never
  reads, and is left out.
\<close>

datatype chunk =
    StoreChunk (offset: "nat list") (count: "nat list")
  | LoadChunk (offset: "nat list") (count: "nat list")

text \<open>
  Modelled from the spec: the state of a RecordComponent (its class is not among the
  sources): the declared dataset if there is one, whether that dataset exists in the
  backend (the spec's "declared-but-uncreated dataset" is \<open>declared = Some d\<close> with
  \<open>datasetCreated = False\<close>), and the queue of pending chunks in submission order.
\<close>

record component =
  declared :: "dataset option"
  datasetCreated :: bool
  pending :: "chunk list"

text \<open>
  Modelled from the spec: the entity kinds of the hierarchy, "series \<rightarrow> iterations \<rightarrow>
  meshes/particle-species \<rightarrow> record components", as the "kind-specific data [that] is a
  separate payload attached to the common node". An Iteration "carries a
  \<^verbatim>\<open>CloseStatus\<close>" and "owns a Mesh container and a ParticleSpecies container".
\<close>

datatype kind = SeriesK | IterationK CloseStatus | ContainerK | MeshK | ParticleSpeciesK
  | RecordComponentK component

text \<open>
  Modelled from the spec: the Hierarchy Node with its Attribute Store (the classes
  \<^verbatim>\<open>Attributable\<close> and \<^verbatim>\<open>Writable\<close> are not among the sources): "dirty: bool,
  writtenToBackend: bool, [...] children: ordered mapping name\<rightarrow>owned child". The
  parent of a node is its position in the tree. The backend handle is opaque and no
  step of the walk reads it; it is left out. The Attribute Store maps a name to a
  value; the flag beside a value says that the attribute has been written since the
  last successful flush ("for each dirty attribute"). The ordered mapping \<open>children\<close> is
  kept as an association list, read as \<open>entries\<close> below reads it.
\<close>

datatype 'v node =
  Node (dirty: bool) (writtenToBackend: bool) (attributes: "(string \<times> 'v \<times> bool) list")
    (kind: kind) (children: "(key \<times> 'v node) list")

text \<open>
  Modelled from the spec: a Task, "its kind [...], the target Hierarchy Node, and an
  operation-specific parameter payload", over the operations of the Task Queue:
  "create entity, write attribute, declare dataset, write/read chunk, advance step,
  close entity".
\<close>

datatype 'v task =
    CreateEntity path
  | WriteAttribute path string 'v
  | CreateDataset path dataset
  | WriteChunk path "nat list" "nat list"
  | ReadChunk path "nat list" "nat list"
  | AdvanceStep path
  | CloseEntity path

fun target :: "'v task \<Rightarrow> path" where
  "target (CreateEntity p) = p"
| "target (WriteAttribute p n v) = p"
| "target (CreateDataset p d) = p"
| "target (WriteChunk p off cnt) = p"
| "target (ReadChunk p off cnt) = p"
| "target (AdvanceStep p) = p"
| "target (CloseEntity p) = p"

text \<open>
  Modelled from the spec: step 3 of the flush algorithm, which is not among the
  sources: "For each dirty attribute, emit a write-attribute task."
\<close>

definition attributeTasks :: "path \<Rightarrow> (string \<times> 'v \<times> bool) list \<Rightarrow> 'v task list" where
  "attributeTasks p as = map (\<lambda>(n, v, d). WriteAttribute p n v) (filter (\<lambda>(n, v, d). d) as)"

text \<open>
  Modelled from the spec: step 5, not among the sources: "For each pending chunk
  write/read, emit the corresponding task, preserving submission order per
  RecordComponent".
\<close>

fun chunkTask :: "path \<Rightarrow> chunk \<Rightarrow> 'v task" where
  "chunkTask p (StoreChunk off cnt) = WriteChunk p off cnt"
| "chunkTask p (LoadChunk off cnt) = ReadChunk p off cnt"

text \<open>
  Modelled from the spec: steps 4 and 5, not among the sources: "For a RecordComponent
  with a declared-but-uncreated dataset, emit create-dataset before any pending chunk
  task", then the chunk tasks.
\<close>

fun datasetTasks :: "path \<Rightarrow> kind \<Rightarrow> 'v task list" where
  "datasetTasks p (RecordComponentK c) =
     (case declared c of
        Some d \<Rightarrow> (if datasetCreated c then [] else [CreateDataset p d])
      | None \<Rightarrow> [])
     @ map (chunkTask p) (pending c)"
| "datasetTasks p k = []"

text \<open>
  Modelled from the spec: the task that ends the flush of an Iteration, not among the
  sources. For \<open>ClosedInFrontend\<close>, "the next flush propagates the close task"; a
  \<open>ClosedTemporarily\<close> iteration "is flushed with a lighter-weight "step advance" task
  rather than a full close". The task comes last, after what "must be flushed before a
  backend file/group may be finalized".
\<close>

fun closeTasks :: "path \<Rightarrow> kind \<Rightarrow> 'v task list" where
  "closeTasks p (IterationK ClosedInFrontend) = [CloseEntity p]"
| "closeTasks p (IterationK ClosedTemporarily) = [AdvanceStep p]"
| "closeTasks p k = []"

text \<open>
  Modelled from the spec: the "ordered mapping name\<rightarrow>owned child" that an association
  list stands for (the container classes are not among the sources). A key is bound to
  the first entry that carries it, as \<open>map_of\<close> reads the list; \<open>entries\<close> lists
  these bindings in the order of the list, "the collection's declared iteration
  order". A list without a repeated key is its own \<open>entries\<close>.
\<close>

fun entriesFrom :: "key list \<Rightarrow> (key \<times> 'a) list \<Rightarrow> (key \<times> 'a) list" where
  "entriesFrom seen [] = []"
| "entriesFrom seen ((k, c) # cs) =
     (if k \<in> set seen then entriesFrom seen cs else (k, c) # entriesFrom (k # seen) cs)"

definition entries :: "(key \<times> 'a) list \<Rightarrow> (key \<times> 'a) list" where
  "entries cs = entriesFrom [] cs"

lemma set_entriesFrom: "set (entriesFrom seen cs) \<subseteq> set cs"
  by (induction seen cs rule: entriesFrom.induct) auto

lemma entries_size [termination_simp]:
  "(key, c) \<in> set (entries cs) \<Longrightarrow>
     size c < Suc (m + size_list (\<lambda>x. Suc (size (snd x))) cs)"
proof -
  assume "(key, c) \<in> set (entries cs)"
  then have "(key, c) \<in> set cs" using set_entriesFrom by (auto simp: entries_def)
  then have "size c < size_list (\<lambda>x. Suc (size (snd x))) cs" by (induction cs) auto
  then show ?thesis by simp
qed

text \<open>
  Modelled from the spec: steps 1 to 5 of the Flush Scheduler, whose code is not among
  the sources. "Traverse the hierarchy depth-first, root to leaves, visiting only dirty
  nodes; order among siblings is the collection's declared iteration order"; "for a node
  not yet created in the backend, emit a create-entity task before any attribute/dataset
  task on that node or its descendants"; then the attribute tasks, the dataset and
  chunk tasks, and the subtrees of the children.
\<close>

fun flushNode :: "path \<Rightarrow> 'v node \<Rightarrow> 'v task list" where
  "flushNode p (Node d w as k cs) =
     (if \<not> d then []
      else (if w then [] else [CreateEntity p])
           @ attributeTasks p as
           @ datasetTasks p k
           @ concat (map (\<lambda>(key, c). flushNode (p @ [key]) c) (entries cs))
           @ closeTasks p k)"





text \<open>
  In a sequence, every element that satisfies \<open>u\<close> (a use) comes after some element that
  satisfies \<open>c\<close> (the creation).
\<close>

definition precedes :: "('a \<Rightarrow> bool) \<Rightarrow> ('a \<Rightarrow> bool) \<Rightarrow> 'a list \<Rightarrow> bool" where
  "precedes c u ts = (\<forall>j<length ts. u (ts ! j) \<longrightarrow> (\<exists>i<j. c (ts ! i)))"

text \<open>The tasks a visited node queues for itself, before those of its children.\<close>

definition ownTasks :: "path \<Rightarrow> 'v node \<Rightarrow> 'v task list" where
  "ownTasks p n =
     (if writtenToBackend n then [] else [CreateEntity p])
     @ attributeTasks p (attributes n) @ datasetTasks p (kind n)"






subsection \<open>Ordering within one sequence\<close>

lemma precedes_no_use: "(\<forall>t\<in>set ts. \<not> u t) \<Longrightarrow> precedes c u ts"
  by (simp add: precedes_def)





subsection \<open>The bindings of an association list\<close>





subsection \<open>The targets of the tasks of a subtree\<close>


lemma target_attributeTasks: "t \<in> set (attributeTasks p as) \<Longrightarrow> target t = p"
  by (auto simp: attributeTasks_def)

lemma target_chunkTask: "target (chunkTask p ch) = p"
  by (cases ch) simp_all

lemma target_datasetTasks: "t \<in> set (datasetTasks p k) \<Longrightarrow> target t = p"
  by (cases k) (auto simp: target_chunkTask split: option.splits if_splits)

lemma target_closeTasks: "t \<in> set (closeTasks p k) \<Longrightarrow> target t = p"
  by (induction p k rule: closeTasks.induct) auto

lemma target_ownTasks: "t \<in> set (ownTasks p n) \<Longrightarrow> target t = p"
  by (auto simp: ownTasks_def dest: target_attributeTasks target_datasetTasks split: if_splits)

lemma target_flushNode: "t \<in> set (flushNode p n) \<Longrightarrow> \<exists>q. target t = p @ q"
proof (induction p n arbitrary: t rule: flushNode.induct)
  case (1 p d w as k cs)
  show ?case
  proof (cases d)
    case False
    then show ?thesis using "1.prems" by simp
  next
    case True
    from "1.prems" True consider
        (own) "t \<in> set (ownTasks p (Node d w as k cs))"
      | (child) key c where "(key, c) \<in> set (entries cs)" "t \<in> set (flushNode (p @ [key]) c)"
      | (close) "t \<in> set (closeTasks p k)"
      by (auto simp: ownTasks_def)
    then show ?thesis
    proof cases
      case own
      then show ?thesis by (auto dest: target_ownTasks)
    next
      case child
      then obtain q where "target t = (p @ [key]) @ q"
        using "1.IH" [OF _ child(1) refl child(2)] True by auto
      then show ?thesis by simp
    next
      case close
      then show ?thesis by (auto dest: target_closeTasks)
    qed
  qed
qed

lemma children_tasks_target:
  assumes "t \<in> set (concat (map (\<lambda>(key, c). flushNode (p @ [key]) c) cs))"
  shows "target t \<noteq> p"
proof -
  from assms obtain key c where "t \<in> set (flushNode (p @ [key]) c)" by auto
  then obtain q where "target t = (p @ [key]) @ q" using target_flushNode by blast
  then show ?thesis by simp
qed





subsection \<open>Create before use\<close>





end
